theory Spec2Isabelle
  imports Main "HOL-Library.Word"
begin

unbundle bit_operations_syntax

section \<open>The ACSI to SD card bridge (acsi2stm.ino)\<close>

text \<open>
  The firmware answers 6-byte ACSI commands with SD card block transfers. The embedding
  follows the sketch function by function: the globals become the fields of a state
  record, the SD card driver and the bus peer (both outside the sketch) become a record
  of scripted outcomes, and every function returns the list of externally visible
  operations it performed, in order, next to its result and the new state.

  Pin-level work (the LED, the data and request lines, interrupt masking) and the
  busy-waits on lines driven by the peer are below the level of the embedding: a DMA
  transfer or a status handshake is one event.
\<close>

subsection \<open>Constants and globals\<close>

type_synonym byte = "8 word"
type_synonym uint32 = "32 word"

definition MAXTRIES_SD :: int where
  "MAXTRIES_SD = 5"

definition BLOCKSIZE :: nat where
  "BLOCKSIZE = 512"

text \<open>
  The structure \<open>inquiry_data\<close>: 36 bytes, the text parts given as ASCII codes
  (\<open>Retro16 \<close>, \<open>ACSI2STM\<close>, \<open> SD card\<close>, \<open>v1.0\<close>).
\<close>

definition inquiry_data :: "byte list" where
  "inquiry_data =
     [0, 0, 1, 0, 31, 0, 0, 0,
      82, 101, 116, 114, 111, 49, 54, 32,
      65, 67, 83, 73, 50, 83, 84, 77,
      32, 83, 68, 32, 99, 97, 114, 100,
      118, 49, 46, 48]"

text \<open>
  What lies outside the sketch. The class \<open>Sd2Card\<close> (header \<open>Sd2CardX.h\<close>) and the
  Atari's DMA controller are parameters: the n-th call of each operation has the outcome
  the script gives for n, which covers every behaviour the driver or the peer can show in
  a run. A read also leaves 512 bytes in the buffer, whatever its outcome.
\<close>

record world =
  init_result :: "nat \<Rightarrow> bool"
  cardSize_result :: "nat \<Rightarrow> uint32"
  readBlock_result :: "nat \<Rightarrow> bool"
  readBlock_data :: "nat \<Rightarrow> nat \<Rightarrow> byte"
  writeBlock_result :: "nat \<Rightarrow> bool"
  dma_data :: "nat \<Rightarrow> nat \<Rightarrow> byte"

text \<open>
  The globals \<open>cmdBuf\<close>, \<open>dataBuf\<close>, \<open>sdBlocks\<close> and \<open>sdReady\<close>; the arrays are
  functions of the index (the sketch never indexes them out of range). The four counters
  say how many calls of each external operation have been made so far.
\<close>

record state =
  cmdBuf :: "nat \<Rightarrow> byte"
  dataBuf :: "nat \<Rightarrow> byte"
  sdBlocks :: uint32
  sdReady :: bool
  inits :: nat
  reads :: nat
  writes :: nat
  dmas :: nat

text \<open>
  The operations a run is observed by. \<open>CardInit\<close>, \<open>CardRead\<close> and \<open>CardWrite\<close> are
  the calls of the driver with their outcome; \<open>ReadBlock\<close> and \<open>WriteBlock\<close> are
  written by the main loop when its call of the sketch's own \<open>readBlock\<close> or
  \<open>writeBlock\<close> has returned, with the value returned; \<open>SendDma\<close> carries the bytes put on the bus, \<open>ReadDma\<close> the number of bytes
  taken from it.
\<close>

datatype event =
    CardInit bool
  | CardRead uint32 bool
  | CardWrite uint32 bool
  | Delay nat
  | FeedWatchdog
  | ReadBlock uint32 bool
  | WriteBlock uint32 bool
  | SendDma "byte list"
  | ReadDma nat
  | SendStatus byte

subsection \<open>DMA transfers and status\<close>

definition sendDma :: "nat \<Rightarrow> state \<Rightarrow> event list \<times> state" where
  "sendDma count s = ([SendDma (map (dataBuf s) [0..<count])], s)"

definition readDma :: "world \<Rightarrow> nat \<Rightarrow> state \<Rightarrow> event list \<times> state" where
  "readDma w count s =
     ([ReadDma count],
      s\<lparr>dataBuf := (\<lambda>i. if i < count then dma_data w (dmas s) i else dataBuf s i),
        dmas := Suc (dmas s)\<rparr>)"

definition sendStatus :: "byte \<Rightarrow> state \<Rightarrow> event list \<times> state" where
  "sendStatus v s = ([SendStatus v], s)"

definition commandSuccess :: "state \<Rightarrow> event list \<times> state" where
  "commandSuccess s = sendStatus 0 s"

definition commandError :: "state \<Rightarrow> event list \<times> state" where
  "commandError s = sendStatus 2 s"

text \<open>Sequencing: run \<open>f\<close> in the state reached, after the events already made.\<close>

definition then_do ::
  "event list \<times> state \<Rightarrow> (state \<Rightarrow> event list \<times> state) \<Rightarrow> event list \<times> state" where
  "then_do r f = (let (evs, s) = f (snd r) in (fst r @ evs, s))"

subsection \<open>Storage access\<close>

definition sdInit :: "world \<Rightarrow> state \<Rightarrow> bool \<times> event list \<times> state" where
  "sdInit w s =
     (let ok = init_result w (inits s);
          s1 = s\<lparr>sdReady := ok, inits := Suc (inits s)\<rparr>;
          s2 = (if ok then s1\<lparr>sdBlocks := cardSize_result w (inits s)\<rparr> else s1)
      in (ok, [CardInit ok], s2))"

definition card_readBlock :: "world \<Rightarrow> uint32 \<Rightarrow> state \<Rightarrow> bool \<times> state" where
  "card_readBlock w block s =
     (readBlock_result w (reads s),
      s\<lparr>dataBuf := (\<lambda>i. if i < BLOCKSIZE then readBlock_data w (reads s) i else dataBuf s i),
        reads := Suc (reads s)\<rparr>)"

definition card_writeBlock :: "world \<Rightarrow> uint32 \<Rightarrow> state \<Rightarrow> bool \<times> state" where
  "card_writeBlock w block s = (writeBlock_result w (writes s), s\<lparr>writes := Suc (writes s)\<rparr>)"

text \<open>
  The \<open>while\<close> loop of \<open>readBlock\<close> with the \<open>return\<close> after it, from the value of
  \<open>tries\<close> at the loop test. The test calls the card first; only when that call failed
  is \<open>tries-- > 0\<close> evaluated, so \<open>tries\<close> keeps its value when the call succeeded and
  is one less when the loop is left because the counter ran out.
\<close>

function readBlock_loop ::
  "world \<Rightarrow> uint32 \<Rightarrow> int \<Rightarrow> state \<Rightarrow> bool \<times> event list \<times> state" where
  "readBlock_loop w block tries s =
     (let (ok, s1) = card_readBlock w block s in
      if ok then (tries > 0, [CardRead block True], s1)
      else if tries > 0 then
        (let tries' = tries - 1;
             body = [CardRead block False, Delay 10, FeedWatchdog] in
         if tries' \<le> MAXTRIES_SD div 2 then
           (let (iok, ev, s2) = sdInit w s1 in
            if \<not> iok then (False, body @ ev, s2)
            else (let (r, evs, s3) = readBlock_loop w block tries' s2
                  in (r, body @ ev @ evs, s3)))
         else (let (r, evs, s3) = readBlock_loop w block tries' s1
               in (r, body @ evs, s3)))
      else (tries - 1 > 0, [CardRead block False], s1))"
  by pat_completeness auto
termination
  by (relation "measure (\<lambda>(w, block, tries, s). nat tries)") auto

definition readBlock :: "world \<Rightarrow> uint32 \<Rightarrow> state \<Rightarrow> bool \<times> event list \<times> state" where
  "readBlock w block s = readBlock_loop w block MAXTRIES_SD s"

function writeBlock_loop ::
  "world \<Rightarrow> uint32 \<Rightarrow> int \<Rightarrow> state \<Rightarrow> bool \<times> event list \<times> state" where
  "writeBlock_loop w block tries s =
     (let (ok, s1) = card_writeBlock w block s in
      if ok then (tries > 0, [CardWrite block True], s1)
      else if tries > 0 then
        (let tries' = tries - 1;
             body = [CardWrite block False, Delay 10, FeedWatchdog] in
         if tries' \<le> MAXTRIES_SD div 2 then
           (let (iok, ev, s2) = sdInit w s1 in
            if \<not> iok then (False, body @ ev, s2)
            else (let (r, evs, s3) = writeBlock_loop w block tries' s2
                  in (r, body @ ev @ evs, s3)))
         else (let (r, evs, s3) = writeBlock_loop w block tries' s1
               in (r, body @ evs, s3)))
      else (tries - 1 > 0, [CardWrite block False], s1))"
  by pat_completeness auto
termination
  by (relation "measure (\<lambda>(w, block, tries, s). nat tries)") auto

definition writeBlock :: "world \<Rightarrow> uint32 \<Rightarrow> state \<Rightarrow> bool \<times> event list \<times> state" where
  "writeBlock w block s = writeBlock_loop w block MAXTRIES_SD s"

subsection \<open>The main loop\<close>

text \<open>
  \<open>waitCommand\<close> leaves the six bytes of a command addressed to this device in
  \<open>cmdBuf\<close>. Its argument gives the six values of the port register \<open>IDR\<close> at which
  the six waits ended; the data lines are bits 8 to 15.
\<close>

definition waitCommand :: "(nat \<Rightarrow> uint32) \<Rightarrow> state \<Rightarrow> state" where
  "waitCommand idr s =
     s\<lparr>cmdBuf := (\<lambda>i. if i = 0 then ucast (drop_bit 8 (idr 0) AND 0x1F)
                        else if i < 6 then ucast (drop_bit 8 (idr i))
                        else cmdBuf s i)\<rparr>"

text \<open>
  The block number of a read or write command. It is an \<open>int\<close> in the sketch and at
  most \<open>0xFFFFFF\<close>; the word holds its 32 bits.
\<close>

definition block_number :: "state \<Rightarrow> uint32" where
  "block_number s =
     push_bit 16 (ucast (cmdBuf s 1)) OR push_bit 8 (ucast (cmdBuf s 2)) OR ucast (cmdBuf s 3)"

text \<open>
  The test \<open>block + cmdBuf[4] - 1 >= sdBlocks\<close>. The left side is an \<open>int\<close> between
  \<open>-1\<close> and \<open>0xFFFFFF + 254\<close>; \<open>sdBlocks\<close> is a \<open>uint32_t\<close>, so the comparison is
  made on the 32 bits of both sides read as unsigned, which is the order of words.
\<close>

definition out_of_range :: "state \<Rightarrow> bool" where
  "out_of_range s = (sdBlocks s \<le> block_number s + ucast (cmdBuf s 4) - 1)"

text \<open>
  The \<open>for\<close> loop of the read command and the \<open>commandSuccess\<close> that follows it;
  the first argument is the loop variable \<open>blocks\<close>.
\<close>

fun read_blocks :: "world \<Rightarrow> nat \<Rightarrow> uint32 \<Rightarrow> state \<Rightarrow> event list \<times> state" where
  "read_blocks w 0 block s = commandSuccess s"
| "read_blocks w (Suc blocks) block s =
     (let (ok, evs, s1) = readBlock w block s in
      if \<not> ok then then_do (FeedWatchdog # evs @ [ReadBlock block False], s1) commandError
      else (let (ev2, s2) = sendDma BLOCKSIZE s1;
                (ev3, s3) = read_blocks w blocks (block + 1) s2
            in (FeedWatchdog # evs @ [ReadBlock block True] @ ev2 @ ev3, s3)))"

fun write_blocks :: "world \<Rightarrow> nat \<Rightarrow> uint32 \<Rightarrow> state \<Rightarrow> event list \<times> state" where
  "write_blocks w 0 block s = commandSuccess s"
| "write_blocks w (Suc blocks) block s =
     (let (ev1, s1) = readDma w BLOCKSIZE s;
          (ok, evs, s2) = writeBlock w block s1 in
      if \<not> ok then then_do (FeedWatchdog # ev1 @ evs @ [WriteBlock block False], s2) commandError
      else (let (ev3, s3) = write_blocks w blocks (block + 1) s2
            in (FeedWatchdog # ev1 @ evs @ [WriteBlock block True] @ ev3, s3)))"

text \<open>The three bytes of \<open>sdBlocks\<close> that the responses carry, and the page builders.\<close>

definition capacity_byte :: "nat \<Rightarrow> state \<Rightarrow> byte" where
  "capacity_byte n s = ucast (drop_bit n (sdBlocks s) AND 0xFF)"

definition zero_fill :: "nat \<Rightarrow> nat \<Rightarrow> (nat \<Rightarrow> byte) \<Rightarrow> (nat \<Rightarrow> byte)" where
  "zero_fill from to d = fold (\<lambda>b d. d(b := 0)) [from..<to] d"

definition request_sense_data :: "state \<Rightarrow> (nat \<Rightarrow> byte)" where
  "request_sense_data s =
     zero_fill 4 (unat (cmdBuf s 4))
       ((dataBuf s)(0 := 0x80, 1 := capacity_byte 16 s, 2 := capacity_byte 8 s,
                    3 := capacity_byte 0 s))"

definition inquiry_fill :: "state \<Rightarrow> (nat \<Rightarrow> byte)" where
  "inquiry_fill s =
     fold (\<lambda>b d. d(b := (if b < length inquiry_data then inquiry_data ! b else 0)))
       [0..<unat (cmdBuf s 4)] (dataBuf s)"

definition mode_sense_0 :: "state \<Rightarrow> (nat \<Rightarrow> byte)" where
  "mode_sense_0 s =
     (zero_fill 0 16 (dataBuf s))
       (1 := 14, 3 := 8, 5 := capacity_byte 16 s, 6 := capacity_byte 8 s,
        7 := capacity_byte 0 s, 10 := 2)"

text \<open>For sub-page 4 the sketch stores the six bytes first and runs the zeroing loop after.\<close>

definition mode_sense_4 :: "state \<Rightarrow> (nat \<Rightarrow> byte)" where
  "mode_sense_4 s =
     zero_fill 0 24
       ((dataBuf s)(0 := 4, 1 := 22, 2 := capacity_byte 23 s, 3 := capacity_byte 15 s,
                    4 := capacity_byte 7 s, 5 := 128))"

text \<open>The \<open>switch\<close> statement of \<open>loop\<close>.\<close>

definition execute :: "world \<Rightarrow> state \<Rightarrow> event list \<times> state" where
  "execute w s =
     (let opc = cmdBuf s 0 in
      if opc = 0x0B \<or> opc = 0x0D \<or> opc = 0x15 \<or> opc = 0x1B then commandSuccess s
      else if opc = 0x00 \<or> opc = 0x04 \<or> opc = 0x05 \<or> opc = 0x06 then
        (let (ok, ev, s1) = sdInit w s in
         if \<not> ok then then_do (ev, s1) commandError else then_do (ev, s1) commandSuccess)
      else if opc = 0x03 then
        (let (ok, ev, s1) = sdInit w s in
         if \<not> ok then then_do (ev, s1) commandError
         else then_do (then_do (ev, s1\<lparr>dataBuf := request_sense_data s1\<rparr>)
                         (sendDma (unat (cmdBuf s 4)))) commandSuccess)
      else if opc = 0x08 then
        (if out_of_range s then commandError s
         else read_blocks w (unat (cmdBuf s 4)) (block_number s) s)
      else if opc = 0x0A then
        (if out_of_range s then commandError s
         else write_blocks w (unat (cmdBuf s 4)) (block_number s) s)
      else if opc = 0x12 then
        then_do (sendDma (unat (cmdBuf s 4)) (s\<lparr>dataBuf := inquiry_fill s\<rparr>)) commandSuccess
      else if opc = 0x1A then
        (if cmdBuf s 2 = 0x00 then
           then_do (sendDma 16 (s\<lparr>dataBuf := mode_sense_0 s\<rparr>)) commandSuccess
         else if cmdBuf s 2 = 0x04 then
           then_do (sendDma 24 (s\<lparr>dataBuf := mode_sense_4 s\<rparr>)) commandSuccess
         else commandSuccess s)
      else commandError s)"

text \<open>
  \<open>loop\<close> after \<open>waitCommand\<close> has returned: the check of \<open>sdReady\<close>, then the switch.
\<close>

definition dispatch :: "world \<Rightarrow> state \<Rightarrow> event list \<times> state" where
  "dispatch w s =
     (if \<not> sdReady s then
        (let (ok, ev, s1) = sdInit w s in
         if \<not> ok then then_do (ev, s1) commandError else then_do (ev, s1) (execute w))
      else execute w s)"

definition loop :: "world \<Rightarrow> (nat \<Rightarrow> uint32) \<Rightarrow> state \<Rightarrow> event list \<times> state" where
  "loop w idr s = dispatch w (waitCommand idr s)"

subsection \<open>Observing a run\<close>

text \<open>What the driver was asked to do: block transfers, and initialisations.\<close>

fun is_card_transfer :: "event \<Rightarrow> bool" where
  "is_card_transfer (CardRead b r) = True"
| "is_card_transfer (CardWrite b r) = True"
| "is_card_transfer e = False"

fun is_card_init :: "event \<Rightarrow> bool" where
  "is_card_init (CardInit r) = True"
| "is_card_init e = False"

definition card_transfers :: "event list \<Rightarrow> event list" where
  "card_transfers evs = filter is_card_transfer evs"

definition card_inits :: "event list \<Rightarrow> event list" where
  "card_inits evs = filter is_card_init evs"

text \<open>
  What the main loop itself called, apart from \<open>sdInit\<close>: \<open>readBlock\<close> and
  \<open>writeBlock\<close> with the block number, the DMA transfers with their length, and
  \<open>sendStatus\<close> with the code.
\<close>

datatype call =
    ReadBlockCall uint32
  | WriteBlockCall uint32
  | SendCall nat
  | ReceiveCall nat
  | StatusCall byte

fun call_of :: "event \<Rightarrow> call list" where
  "call_of (ReadBlock b r) = [ReadBlockCall b]"
| "call_of (WriteBlock b r) = [WriteBlockCall b]"
| "call_of (SendDma bs) = [SendCall (length bs)]"
| "call_of (ReadDma n) = [ReceiveCall n]"
| "call_of (SendStatus v) = [StatusCall v]"
| "call_of e = []"

definition calls :: "event list \<Rightarrow> call list" where
  "calls evs = concat (map call_of evs)"

text \<open>The calls of \<open>readBlock\<close> and \<open>writeBlock\<close> that returned \<open>false\<close>.\<close>

fun is_failed_transfer :: "event \<Rightarrow> bool" where
  "is_failed_transfer (ReadBlock b r) = (\<not> r)"
| "is_failed_transfer (WriteBlock b r) = (\<not> r)"
| "is_failed_transfer e = False"

definition failed_transfers :: "event list \<Rightarrow> event list" where
  "failed_transfers evs = filter is_failed_transfer evs"

text \<open>The status bytes sent, in order.\<close>

fun status_of :: "event \<Rightarrow> byte list" where
  "status_of (SendStatus v) = [v]"
| "status_of e = []"

definition statuses :: "event list \<Rightarrow> byte list" where
  "statuses evs = concat (map status_of evs)"

text \<open>A run that sends no status before its last operation, which sends 0 or 2.\<close>

definition status_last :: "event list \<Rightarrow> bool" where
  "status_last evs \<longleftrightarrow>
     evs \<noteq> [] \<and> statuses (butlast evs) = [] \<and>
     (last evs = SendStatus 0 \<or> last evs = SendStatus 2)"

text \<open>
  The state in which the switch is reached (the check of \<open>sdReady\<close> has called
  \<open>sdInit\<close> if the card was not ready), and the value of \<open>sdBlocks\<close> there.
\<close>

definition at_switch :: "world \<Rightarrow> state \<Rightarrow> state" where
  "at_switch w s = (if sdReady s then s else snd (snd (sdInit w s)))"

definition recorded_capacity :: "world \<Rightarrow> state \<Rightarrow> uint32" where
  "recorded_capacity w s = sdBlocks (at_switch w s)"

subsection \<open>Cards and states to run the model on\<close>

text \<open>
  A card on which everything succeeds, one whose block transfers always fail, one that
  is absent (nothing succeeds), and one whose first five block transfers fail. All report
  100 blocks.
\<close>

definition healthy_card :: world where
  "healthy_card =
     \<lparr>init_result = (\<lambda>n. True), cardSize_result = (\<lambda>n. 100),
      readBlock_result = (\<lambda>n. True), readBlock_data = (\<lambda>n i. 0),
      writeBlock_result = (\<lambda>n. True), dma_data = (\<lambda>n i. 0)\<rparr>"

definition failing_card :: world where
  "failing_card =
     \<lparr>init_result = (\<lambda>n. True), cardSize_result = (\<lambda>n. 100),
      readBlock_result = (\<lambda>n. False), readBlock_data = (\<lambda>n i. 0),
      writeBlock_result = (\<lambda>n. False), dma_data = (\<lambda>n i. 0)\<rparr>"

definition absent_card :: world where
  "absent_card =
     \<lparr>init_result = (\<lambda>n. False), cardSize_result = (\<lambda>n. 100),
      readBlock_result = (\<lambda>n. False), readBlock_data = (\<lambda>n i. 0),
      writeBlock_result = (\<lambda>n. False), dma_data = (\<lambda>n i. 0)\<rparr>"

definition late_card :: world where
  "late_card =
     \<lparr>init_result = (\<lambda>n. True), cardSize_result = (\<lambda>n. 100),
      readBlock_result = (\<lambda>n. 5 \<le> n), readBlock_data = (\<lambda>n i. 0),
      writeBlock_result = (\<lambda>n. 5 \<le> n), dma_data = (\<lambda>n i. 0)\<rparr>"

text \<open>
  The state with a given command in \<open>cmdBuf\<close>, a zeroed \<open>dataBuf\<close> and no call made
  yet: with an initialised card of a given capacity, and with no card initialised
  (\<open>sdBlocks\<close> then has its initial value \<open>4000*2048\<close>).
\<close>

definition ready_state :: "uint32 \<Rightarrow> byte list \<Rightarrow> state" where
  "ready_state capacity frame =
     \<lparr>cmdBuf = (\<lambda>i. if i < length frame then frame ! i else 0), dataBuf = (\<lambda>i. 0),
      sdBlocks = capacity, sdReady = True, inits = 0, reads = 0, writes = 0, dmas = 0\<rparr>"

definition unready_state :: "byte list \<Rightarrow> state" where
  "unready_state frame = (ready_state 8192000 frame)\<lparr>sdReady := False\<rparr>"

section \<open>Properties\<close>

subsection \<open>Projections of a run\<close>

declare readBlock_loop.simps [simp del] writeBlock_loop.simps [simp del]

lemma card_transfers_simps [simp]:
  "card_transfers [] = []"
  "card_transfers (e # evs) =
     (if is_card_transfer e then e # card_transfers evs else card_transfers evs)"
  "card_transfers (xs @ ys) = card_transfers xs @ card_transfers ys"
  by (simp_all add: card_transfers_def)

lemma card_inits_simps [simp]:
  "card_inits [] = []"
  "card_inits (e # evs) = (if is_card_init e then e # card_inits evs else card_inits evs)"
  "card_inits (xs @ ys) = card_inits xs @ card_inits ys"
  by (simp_all add: card_inits_def)

lemma failed_transfers_simps [simp]:
  "failed_transfers [] = []"
  "failed_transfers (e # evs) =
     (if is_failed_transfer e then e # failed_transfers evs else failed_transfers evs)"
  "failed_transfers (xs @ ys) = failed_transfers xs @ failed_transfers ys"
  by (simp_all add: failed_transfers_def)

lemma calls_simps [simp]:
  "calls [] = []"
  "calls (e # evs) = call_of e @ calls evs"
  "calls (xs @ ys) = calls xs @ calls ys"
  by (simp_all add: calls_def)

lemma statuses_simps [simp]:
  "statuses [] = []"
  "statuses (e # evs) = status_of e @ statuses evs"
  "statuses (xs @ ys) = statuses xs @ statuses ys"
  by (simp_all add: statuses_def)

lemma statuses_calls: "calls evs = [] \<Longrightarrow> statuses evs = []"
proof (induction evs)
  case Nil
  show ?case by simp
next
  case (Cons e evs)
  then show ?case by (cases e) simp_all
qed

lemma failed_transfers_calls: "calls evs = [] \<Longrightarrow> failed_transfers evs = []"
proof (induction evs)
  case Nil
  show ?case by simp
next
  case (Cons e evs)
  then show ?case by (cases e) simp_all
qed

lemma status_last_append: "statuses xs = [] \<Longrightarrow> status_last ys \<Longrightarrow> status_last (xs @ ys)"
  by (simp add: status_last_def butlast_append)

lemma status_last_Cons: "status_of e = [] \<Longrightarrow> status_last ys \<Longrightarrow> status_last (e # ys)"
  using status_last_append [of "[e]" ys] by simp

lemma status_last_Cons_iff:
  "status_last (e # evs) \<longleftrightarrow>
     (if evs = [] then e = SendStatus 0 \<or> e = SendStatus 2
      else status_of e = [] \<and> status_last evs)"
  by (simp add: status_last_def)

lemma status_last_eq:
  assumes "status_last evs"
  shows "statuses evs = status_of (last evs)"
proof -
  from assms have "evs = butlast evs @ [last evs]"
    by (simp add: status_last_def)
  then have "statuses evs = statuses (butlast evs) @ statuses [last evs]"
    by (metis statuses_simps(3))
  with assms show ?thesis
    by (simp add: status_last_def)
qed

lemma status_last_statuses: "status_last evs \<Longrightarrow> statuses evs = [0] \<or> statuses evs = [2]"
  using status_last_eq [of evs] by (auto simp: status_last_def)

lemma status_last_last: "status_last evs \<Longrightarrow> last evs = SendStatus (hd (statuses evs))"
  using status_last_eq [of evs] by (auto simp: status_last_def)

subsection \<open>The primitive operations\<close>

lemma fst_then_do [simp]: "fst (then_do r f) = fst r @ fst (f (snd r))"
  by (simp add: then_do_def split_beta)

lemma commandSuccess_events [simp]: "fst (commandSuccess s) = [SendStatus 0]"
  by (simp add: commandSuccess_def sendStatus_def)

lemma commandError_events [simp]: "fst (commandError s) = [SendStatus 2]"
  by (simp add: commandError_def sendStatus_def)

lemma sendDma_events [simp]: "fst (sendDma n s) = [SendDma (map (dataBuf s) [0..<n])]"
  by (simp add: sendDma_def)

lemma sendDma_state [simp]: "snd (sendDma n s) = s"
  by (simp add: sendDma_def)

lemma readDma_events [simp]: "fst (readDma w n s) = [ReadDma n]"
  by (simp add: readDma_def)

lemma sdInit_result [simp]: "fst (sdInit w s) = init_result w (inits s)"
  by (simp add: sdInit_def Let_def)

lemma sdInit_events [simp]: "fst (snd (sdInit w s)) = [CardInit (init_result w (inits s))]"
  by (simp add: sdInit_def Let_def)

lemma sdInit_cmdBuf [simp]: "cmdBuf (snd (snd (sdInit w s))) = cmdBuf s"
  by (simp add: sdInit_def Let_def)

subsection \<open>The retry loop of readBlock\<close>

text \<open>The loop, one round at a time, with the constants evaluated.\<close>

lemma readBlock_loop_unfold:
  "readBlock_loop w block tries s =
     (let s1 = snd (card_readBlock w block s) in
      if readBlock_result w (reads s) then (0 < tries, [CardRead block True], s1)
      else if tries \<le> 0 then (False, [CardRead block False], s1)
      else if 3 < tries then
        (let r = readBlock_loop w block (tries - 1) s1
         in (fst r, [CardRead block False, Delay 10, FeedWatchdog] @ fst (snd r), snd (snd r)))
      else if \<not> init_result w (inits s) then
        (False, [CardRead block False, Delay 10, FeedWatchdog, CardInit False],
         snd (snd (sdInit w s1)))
      else
        (let r = readBlock_loop w block (tries - 1) (snd (snd (sdInit w s1)))
         in (fst r, [CardRead block False, Delay 10, FeedWatchdog, CardInit True] @ fst (snd r),
             snd (snd r))))"
  by (subst readBlock_loop.simps)
     (auto simp: Let_def card_readBlock_def sdInit_def MAXTRIES_SD_def split: prod.splits)

lemma readBlock_loop_transfers:
  "0 \<le> tries \<Longrightarrow>
   length (card_transfers (fst (snd (readBlock_loop w block tries s)))) \<le> nat tries + 1"
proof (induction "nat tries" arbitrary: tries s)
  case 0
  then show ?case
    by (subst readBlock_loop_unfold) (simp add: Let_def)
next
  case (Suc n)
  then have IH: "length (card_transfers (fst (snd (readBlock_loop w block (tries - 1) s'))))
      \<le> nat (tries - 1) + 1" for s'
    by simp
  from Suc have "nat (tries - 1) + 1 = nat tries"
    by simp
  with IH show ?case
    by (subst readBlock_loop_unfold) (simp add: Let_def)
qed

lemma readBlock_loop_all_fail:
  "\<forall>n. \<not> readBlock_result w n \<Longrightarrow> \<not> fst (readBlock_loop w block tries s)"
proof (induction "nat tries" arbitrary: tries s)
  case 0
  then show ?case
    by (subst readBlock_loop_unfold) (simp add: Let_def)
next
  case (Suc n)
  then have "\<not> fst (readBlock_loop w block (tries - 1) s')" for s'
    by simp
  with Suc.prems show ?case
    by (subst readBlock_loop_unfold) (simp add: Let_def)
qed

lemma readBlock_loop_inits:
  "\<forall>n. \<not> readBlock_result w n \<Longrightarrow> \<forall>n. init_result w n \<Longrightarrow> 0 \<le> tries \<Longrightarrow>
   length (card_inits (fst (snd (readBlock_loop w block tries s)))) = nat (min tries 3)"
proof (induction "nat tries" arbitrary: tries s)
  case 0
  then show ?case
    by (subst readBlock_loop_unfold) (simp add: Let_def)
next
  case (Suc n)
  then have IH: "length (card_inits (fst (snd (readBlock_loop w block (tries - 1) s'))))
      = nat (min (tries - 1) 3)" for s'
    by simp
  from Suc.hyps have "0 < tries"
    by simp
  with IH Suc.prems show ?case
    by (subst readBlock_loop_unfold) (auto simp: Let_def)
qed

lemma readBlock_loop_init_failed:
  "CardInit False \<in> set (fst (snd (readBlock_loop w block tries s))) \<Longrightarrow>
   \<not> fst (readBlock_loop w block tries s) \<and>
   last (fst (snd (readBlock_loop w block tries s))) = CardInit False"
proof (induction "nat tries" arbitrary: tries s)
  case 0
  then have "tries \<le> 0"
    by simp
  then have "fst (snd (readBlock_loop w block tries s))
      = [CardRead block (readBlock_result w (reads s))]"
    by (subst readBlock_loop_unfold) (simp add: Let_def)
  with "0.prems" show ?case
    by simp
next
  case (Suc n)
  then have pos: "0 < tries"
    by simp
  have IH: "CardInit False \<in> set (fst (snd (readBlock_loop w block (tries - 1) s'))) \<Longrightarrow>
     \<not> fst (readBlock_loop w block (tries - 1) s') \<and>
     last (fst (snd (readBlock_loop w block (tries - 1) s'))) = CardInit False" for s'
    using Suc.hyps by simp
  note eq = readBlock_loop_unfold [of w block tries s]
  consider (ok) "readBlock_result w (reads s)"
    | (again) "\<not> readBlock_result w (reads s)" "3 < tries"
    | (init_failed) "\<not> readBlock_result w (reads s)" "\<not> 3 < tries" "\<not> init_result w (inits s)"
    | (init_ok) "\<not> readBlock_result w (reads s)" "\<not> 3 < tries" "init_result w (inits s)"
    by blast
  then show ?case
  proof cases
    case ok
    with eq have "fst (snd (readBlock_loop w block tries s)) = [CardRead block True]"
      by (simp add: Let_def)
    with Suc.prems show ?thesis
      by simp
  next
    case again
    define r where "r = readBlock_loop w block (tries - 1) (snd (card_readBlock w block s))"
    from again pos eq have e: "readBlock_loop w block tries s =
        (fst r, [CardRead block False, Delay 10, FeedWatchdog] @ fst (snd r), snd (snd r))"
      by (simp add: Let_def r_def)
    with Suc.prems have m: "CardInit False \<in> set (fst (snd r))"
      by simp
    then have "fst (snd r) \<noteq> []"
      by auto
    with IH [of "snd (card_readBlock w block s)"] m e show ?thesis
      by (simp add: r_def)
  next
    case init_failed
    with pos eq show ?thesis
      by (simp add: Let_def)
  next
    case init_ok
    define r where
      "r = readBlock_loop w block (tries - 1)
             (snd (snd (sdInit w (snd (card_readBlock w block s)))))"
    from init_ok pos eq have e: "readBlock_loop w block tries s =
        (fst r, [CardRead block False, Delay 10, FeedWatchdog, CardInit True] @ fst (snd r),
         snd (snd r))"
      by (simp add: Let_def r_def)
    with Suc.prems have m: "CardInit False \<in> set (fst (snd r))"
      by simp
    then have "fst (snd r) \<noteq> []"
      by auto
    with IH [of "snd (snd (sdInit w (snd (card_readBlock w block s))))"] m e show ?thesis
      by (simp add: r_def)
  qed
qed

text \<open>The run in which the sixth call of the driver is the first to succeed.\<close>

lemma readBlock_loop_sixth:
  assumes f: "\<forall>i<5. \<not> readBlock_result w (reads s + i)"
    and g: "readBlock_result w (reads s + 5)"
    and h: "\<forall>n. init_result w n"
  shows "fst (readBlock_loop w block 5 s) = False"
    and "fst (snd (readBlock_loop w block 5 s)) =
      [CardRead block False, Delay 10, FeedWatchdog,
       CardRead block False, Delay 10, FeedWatchdog,
       CardRead block False, Delay 10, FeedWatchdog, CardInit True,
       CardRead block False, Delay 10, FeedWatchdog, CardInit True,
       CardRead block False, Delay 10, FeedWatchdog, CardInit True,
       CardRead block True]"
proof -
  have f0: "\<not> readBlock_result w (reads s)"
    and f1: "\<not> readBlock_result w (Suc (reads s))"
    and f2: "\<not> readBlock_result w (Suc (Suc (reads s)))"
    and f3: "\<not> readBlock_result w (Suc (Suc (Suc (reads s))))"
    and f4: "\<not> readBlock_result w (Suc (Suc (Suc (Suc (reads s)))))"
    using f [rule_format, of 0] f [rule_format, of 1] f [rule_format, of 2]
      f [rule_format, of 3] f [rule_format, of 4]
    by (simp_all add: eval_nat_numeral)
  from g have f5: "readBlock_result w (Suc (Suc (Suc (Suc (Suc (reads s))))))"
    by (simp add: eval_nat_numeral)
  note rounds = readBlock_loop_unfold [where tries = 5] readBlock_loop_unfold [where tries = 4]
    readBlock_loop_unfold [where tries = 3] readBlock_loop_unfold [where tries = 2]
    readBlock_loop_unfold [where tries = 1] readBlock_loop_unfold [where tries = 0]
  show "fst (readBlock_loop w block 5 s) = False"
    by (simp add: rounds Let_def card_readBlock_def sdInit_def f0 f1 f2 f3 f4 f5 h)
  show "fst (snd (readBlock_loop w block 5 s)) =
      [CardRead block False, Delay 10, FeedWatchdog,
       CardRead block False, Delay 10, FeedWatchdog,
       CardRead block False, Delay 10, FeedWatchdog, CardInit True,
       CardRead block False, Delay 10, FeedWatchdog, CardInit True,
       CardRead block False, Delay 10, FeedWatchdog, CardInit True,
       CardRead block True]"
    by (simp add: rounds Let_def card_readBlock_def sdInit_def f0 f1 f2 f3 f4 f5 h)
qed

text \<open>The run in which every call of the driver fails and every initialisation succeeds.\<close>

lemma readBlock_loop_failing:
  assumes f: "\<forall>n. \<not> readBlock_result w n"
    and h: "\<forall>n. init_result w n"
  shows "fst (snd (readBlock_loop w block 5 s)) =
      [CardRead block False, Delay 10, FeedWatchdog,
       CardRead block False, Delay 10, FeedWatchdog,
       CardRead block False, Delay 10, FeedWatchdog, CardInit True,
       CardRead block False, Delay 10, FeedWatchdog, CardInit True,
       CardRead block False, Delay 10, FeedWatchdog, CardInit True,
       CardRead block False]"
proof -
  note rounds = readBlock_loop_unfold [where tries = 5] readBlock_loop_unfold [where tries = 4]
    readBlock_loop_unfold [where tries = 3] readBlock_loop_unfold [where tries = 2]
    readBlock_loop_unfold [where tries = 1] readBlock_loop_unfold [where tries = 0]
  show ?thesis
    by (simp add: rounds Let_def f h)
qed

lemma calls_readBlock_loop [simp]: "calls (fst (snd (readBlock_loop w block tries s))) = []"
proof (induction "nat tries" arbitrary: tries s)
  case 0
  then show ?case
    by (subst readBlock_loop_unfold) (simp add: Let_def)
next
  case (Suc n)
  then have "calls (fst (snd (readBlock_loop w block (tries - 1) s'))) = []" for s'
    by simp
  then show ?case
    by (subst readBlock_loop_unfold) (simp add: Let_def)
qed

lemma calls_readBlock [simp]: "calls (fst (snd (readBlock w block s))) = []"
  by (simp add: readBlock_def)

subsection \<open>The retry loop of writeBlock\<close>

text \<open>The same facts for the loop of \<open>writeBlock\<close>, which has the same shape.\<close>

lemma writeBlock_loop_unfold:
  "writeBlock_loop w block tries s =
     (let s1 = snd (card_writeBlock w block s) in
      if writeBlock_result w (writes s) then (0 < tries, [CardWrite block True], s1)
      else if tries \<le> 0 then (False, [CardWrite block False], s1)
      else if 3 < tries then
        (let r = writeBlock_loop w block (tries - 1) s1
         in (fst r, [CardWrite block False, Delay 10, FeedWatchdog] @ fst (snd r), snd (snd r)))
      else if \<not> init_result w (inits s) then
        (False, [CardWrite block False, Delay 10, FeedWatchdog, CardInit False],
         snd (snd (sdInit w s1)))
      else
        (let r = writeBlock_loop w block (tries - 1) (snd (snd (sdInit w s1)))
         in (fst r, [CardWrite block False, Delay 10, FeedWatchdog, CardInit True] @ fst (snd r),
             snd (snd r))))"
  by (subst writeBlock_loop.simps)
     (auto simp: Let_def card_writeBlock_def sdInit_def MAXTRIES_SD_def split: prod.splits)

lemma writeBlock_loop_transfers:
  "0 \<le> tries \<Longrightarrow>
   length (card_transfers (fst (snd (writeBlock_loop w block tries s)))) \<le> nat tries + 1"
proof (induction "nat tries" arbitrary: tries s)
  case 0
  then show ?case
    by (subst writeBlock_loop_unfold) (simp add: Let_def)
next
  case (Suc n)
  then have IH: "length (card_transfers (fst (snd (writeBlock_loop w block (tries - 1) s'))))
      \<le> nat (tries - 1) + 1" for s'
    by simp
  from Suc have "nat (tries - 1) + 1 = nat tries"
    by simp
  with IH show ?case
    by (subst writeBlock_loop_unfold) (simp add: Let_def)
qed

lemma writeBlock_loop_all_fail:
  "\<forall>n. \<not> writeBlock_result w n \<Longrightarrow> \<not> fst (writeBlock_loop w block tries s)"
proof (induction "nat tries" arbitrary: tries s)
  case 0
  then show ?case
    by (subst writeBlock_loop_unfold) (simp add: Let_def)
next
  case (Suc n)
  then have "\<not> fst (writeBlock_loop w block (tries - 1) s')" for s'
    by simp
  with Suc.prems show ?case
    by (subst writeBlock_loop_unfold) (simp add: Let_def)
qed

lemma writeBlock_loop_inits:
  "\<forall>n. \<not> writeBlock_result w n \<Longrightarrow> \<forall>n. init_result w n \<Longrightarrow> 0 \<le> tries \<Longrightarrow>
   length (card_inits (fst (snd (writeBlock_loop w block tries s)))) = nat (min tries 3)"
proof (induction "nat tries" arbitrary: tries s)
  case 0
  then show ?case
    by (subst writeBlock_loop_unfold) (simp add: Let_def)
next
  case (Suc n)
  then have IH: "length (card_inits (fst (snd (writeBlock_loop w block (tries - 1) s'))))
      = nat (min (tries - 1) 3)" for s'
    by simp
  from Suc.hyps have "0 < tries"
    by simp
  with IH Suc.prems show ?case
    by (subst writeBlock_loop_unfold) (auto simp: Let_def)
qed

lemma writeBlock_loop_init_failed:
  "CardInit False \<in> set (fst (snd (writeBlock_loop w block tries s))) \<Longrightarrow>
   \<not> fst (writeBlock_loop w block tries s) \<and>
   last (fst (snd (writeBlock_loop w block tries s))) = CardInit False"
proof (induction "nat tries" arbitrary: tries s)
  case 0
  then have "tries \<le> 0"
    by simp
  then have "fst (snd (writeBlock_loop w block tries s))
      = [CardWrite block (writeBlock_result w (writes s))]"
    by (subst writeBlock_loop_unfold) (simp add: Let_def)
  with "0.prems" show ?case
    by simp
next
  case (Suc n)
  then have pos: "0 < tries"
    by simp
  have IH: "CardInit False \<in> set (fst (snd (writeBlock_loop w block (tries - 1) s'))) \<Longrightarrow>
     \<not> fst (writeBlock_loop w block (tries - 1) s') \<and>
     last (fst (snd (writeBlock_loop w block (tries - 1) s'))) = CardInit False" for s'
    using Suc.hyps by simp
  note eq = writeBlock_loop_unfold [of w block tries s]
  consider (ok) "writeBlock_result w (writes s)"
    | (again) "\<not> writeBlock_result w (writes s)" "3 < tries"
    | (init_failed) "\<not> writeBlock_result w (writes s)" "\<not> 3 < tries" "\<not> init_result w (inits s)"
    | (init_ok) "\<not> writeBlock_result w (writes s)" "\<not> 3 < tries" "init_result w (inits s)"
    by blast
  then show ?case
  proof cases
    case ok
    with eq have "fst (snd (writeBlock_loop w block tries s)) = [CardWrite block True]"
      by (simp add: Let_def)
    with Suc.prems show ?thesis
      by simp
  next
    case again
    define r where "r = writeBlock_loop w block (tries - 1) (snd (card_writeBlock w block s))"
    from again pos eq have e: "writeBlock_loop w block tries s =
        (fst r, [CardWrite block False, Delay 10, FeedWatchdog] @ fst (snd r), snd (snd r))"
      by (simp add: Let_def r_def)
    with Suc.prems have m: "CardInit False \<in> set (fst (snd r))"
      by simp
    then have "fst (snd r) \<noteq> []"
      by auto
    with IH [of "snd (card_writeBlock w block s)"] m e show ?thesis
      by (simp add: r_def)
  next
    case init_failed
    with pos eq show ?thesis
      by (simp add: Let_def)
  next
    case init_ok
    define r where
      "r = writeBlock_loop w block (tries - 1)
             (snd (snd (sdInit w (snd (card_writeBlock w block s)))))"
    from init_ok pos eq have e: "writeBlock_loop w block tries s =
        (fst r, [CardWrite block False, Delay 10, FeedWatchdog, CardInit True] @ fst (snd r),
         snd (snd r))"
      by (simp add: Let_def r_def)
    with Suc.prems have m: "CardInit False \<in> set (fst (snd r))"
      by simp
    then have "fst (snd r) \<noteq> []"
      by auto
    with IH [of "snd (snd (sdInit w (snd (card_writeBlock w block s))))"] m e show ?thesis
      by (simp add: r_def)
  qed
qed

lemma writeBlock_loop_sixth:
  assumes f: "\<forall>i<5. \<not> writeBlock_result w (writes s + i)"
    and g: "writeBlock_result w (writes s + 5)"
    and h: "\<forall>n. init_result w n"
  shows "fst (writeBlock_loop w block 5 s) = False"
    and "fst (snd (writeBlock_loop w block 5 s)) =
      [CardWrite block False, Delay 10, FeedWatchdog,
       CardWrite block False, Delay 10, FeedWatchdog,
       CardWrite block False, Delay 10, FeedWatchdog, CardInit True,
       CardWrite block False, Delay 10, FeedWatchdog, CardInit True,
       CardWrite block False, Delay 10, FeedWatchdog, CardInit True,
       CardWrite block True]"
proof -
  have f0: "\<not> writeBlock_result w (writes s)"
    and f1: "\<not> writeBlock_result w (Suc (writes s))"
    and f2: "\<not> writeBlock_result w (Suc (Suc (writes s)))"
    and f3: "\<not> writeBlock_result w (Suc (Suc (Suc (writes s))))"
    and f4: "\<not> writeBlock_result w (Suc (Suc (Suc (Suc (writes s)))))"
    using f [rule_format, of 0] f [rule_format, of 1] f [rule_format, of 2]
      f [rule_format, of 3] f [rule_format, of 4]
    by (simp_all add: eval_nat_numeral)
  from g have f5: "writeBlock_result w (Suc (Suc (Suc (Suc (Suc (writes s))))))"
    by (simp add: eval_nat_numeral)
  note rounds = writeBlock_loop_unfold [where tries = 5] writeBlock_loop_unfold [where tries = 4]
    writeBlock_loop_unfold [where tries = 3] writeBlock_loop_unfold [where tries = 2]
    writeBlock_loop_unfold [where tries = 1] writeBlock_loop_unfold [where tries = 0]
  show "fst (writeBlock_loop w block 5 s) = False"
    by (simp add: rounds Let_def card_writeBlock_def sdInit_def f0 f1 f2 f3 f4 f5 h)
  show "fst (snd (writeBlock_loop w block 5 s)) =
      [CardWrite block False, Delay 10, FeedWatchdog,
       CardWrite block False, Delay 10, FeedWatchdog,
       CardWrite block False, Delay 10, FeedWatchdog, CardInit True,
       CardWrite block False, Delay 10, FeedWatchdog, CardInit True,
       CardWrite block False, Delay 10, FeedWatchdog, CardInit True,
       CardWrite block True]"
    by (simp add: rounds Let_def card_writeBlock_def sdInit_def f0 f1 f2 f3 f4 f5 h)
qed

lemma writeBlock_loop_failing:
  assumes f: "\<forall>n. \<not> writeBlock_result w n"
    and h: "\<forall>n. init_result w n"
  shows "fst (snd (writeBlock_loop w block 5 s)) =
      [CardWrite block False, Delay 10, FeedWatchdog,
       CardWrite block False, Delay 10, FeedWatchdog,
       CardWrite block False, Delay 10, FeedWatchdog, CardInit True,
       CardWrite block False, Delay 10, FeedWatchdog, CardInit True,
       CardWrite block False, Delay 10, FeedWatchdog, CardInit True,
       CardWrite block False]"
proof -
  note rounds = writeBlock_loop_unfold [where tries = 5] writeBlock_loop_unfold [where tries = 4]
    writeBlock_loop_unfold [where tries = 3] writeBlock_loop_unfold [where tries = 2]
    writeBlock_loop_unfold [where tries = 1] writeBlock_loop_unfold [where tries = 0]
  show ?thesis
    by (simp add: rounds Let_def f h)
qed

lemma calls_writeBlock_loop [simp]: "calls (fst (snd (writeBlock_loop w block tries s))) = []"
proof (induction "nat tries" arbitrary: tries s)
  case 0
  then show ?case
    by (subst writeBlock_loop_unfold) (simp add: Let_def)
next
  case (Suc n)
  then have "calls (fst (snd (writeBlock_loop w block (tries - 1) s'))) = []" for s'
    by simp
  then show ?case
    by (subst writeBlock_loop_unfold) (simp add: Let_def)
qed

lemma calls_writeBlock [simp]: "calls (fst (snd (writeBlock w block s))) = []"
  by (simp add: writeBlock_def)

section \<open>The storage access layer: claims C3, C4 and C9\<close>

text \<open>
  C3, as amended. When the card fails every single-block call, \<open>readBlock\<close> and
  \<open>writeBlock\<close> return \<open>false\<close> after calling the card's single-block operation at
  most 6 times: the first attempt and at most \<open>MAXTRIES_SD = 5\<close> retries.
\<close>

theorem retry_bound:
  "((\<forall>n. \<not> readBlock_result w n) \<longrightarrow>
      \<not> fst (readBlock w block s) \<and>
      length (card_transfers (fst (snd (readBlock w block s)))) \<le> 6) \<and>
   ((\<forall>n. \<not> writeBlock_result w n) \<longrightarrow>
      \<not> fst (writeBlock w block s) \<and>
      length (card_transfers (fst (snd (writeBlock w block s)))) \<le> 6)"
  using readBlock_loop_transfers [of 5 w block s] writeBlock_loop_transfers [of 5 w block s]
  by (simp add: readBlock_def writeBlock_def MAXTRIES_SD_def
      readBlock_loop_all_fail writeBlock_loop_all_fail)

theorem retry_bound_witness:
  "(\<not> fst (readBlock failing_card 10 (ready_state 100 [])) \<and>
    length (card_transfers (fst (snd (readBlock failing_card 10 (ready_state 100 []))))) \<le> 6) \<and>
   (\<not> fst (writeBlock failing_card 10 (ready_state 100 [])) \<and>
    length (card_transfers (fst (snd (writeBlock failing_card 10 (ready_state 100 []))))) \<le> 6)"
proof -
  have "\<forall>n. \<not> readBlock_result failing_card n" "\<forall>n. \<not> writeBlock_result failing_card n"
    by (simp_all add: failing_card_def)
  with retry_bound [of failing_card 10 "ready_state 100 []"] show ?thesis
    by blast
qed

text \<open>
  C3 as stated fails: on a card whose block transfers always fail and whose
  initialisation succeeds, the single-block operation is called 6 times, not at most 5.
\<close>

theorem retry_bound_counterexample:
  "length (card_transfers (fst (snd (readBlock failing_card 10 (ready_state 100 []))))) = 6 \<and>
   length (card_transfers (fst (snd (writeBlock failing_card 10 (ready_state 100 []))))) = 6"
  by code_simp

text \<open>
  C4, as amended. When the card fails every single-block call and every initialisation
  succeeds, \<open>readBlock\<close> and \<open>writeBlock\<close> call \<open>sdInit\<close> exactly three times, after
  the third, the fourth and the fifth failed call (when \<open>tries\<close> has fallen to 2, 1 and
  0), make a sixth call and return \<open>false\<close>: the theorem gives the whole run. Whatever
  the card does, once a call of \<open>sdInit\<close> fails the operation returns \<open>false\<close> with
  that call as its last action.
\<close>

theorem reinit_count:
  "((\<forall>n. \<not> readBlock_result w n) \<and> (\<forall>n. init_result w n) \<longrightarrow>
      \<not> fst (readBlock w block s) \<and>
      length (card_inits (fst (snd (readBlock w block s)))) = 3 \<and>
      fst (snd (readBlock w block s)) =
        [CardRead block False, Delay 10, FeedWatchdog,
         CardRead block False, Delay 10, FeedWatchdog,
         CardRead block False, Delay 10, FeedWatchdog, CardInit True,
         CardRead block False, Delay 10, FeedWatchdog, CardInit True,
         CardRead block False, Delay 10, FeedWatchdog, CardInit True,
         CardRead block False]) \<and>
   (CardInit False \<in> set (fst (snd (readBlock w block s))) \<longrightarrow>
      \<not> fst (readBlock w block s) \<and> last (fst (snd (readBlock w block s))) = CardInit False) \<and>
   ((\<forall>n. \<not> writeBlock_result w n) \<and> (\<forall>n. init_result w n) \<longrightarrow>
      \<not> fst (writeBlock w block s) \<and>
      length (card_inits (fst (snd (writeBlock w block s)))) = 3 \<and>
      fst (snd (writeBlock w block s)) =
        [CardWrite block False, Delay 10, FeedWatchdog,
         CardWrite block False, Delay 10, FeedWatchdog,
         CardWrite block False, Delay 10, FeedWatchdog, CardInit True,
         CardWrite block False, Delay 10, FeedWatchdog, CardInit True,
         CardWrite block False, Delay 10, FeedWatchdog, CardInit True,
         CardWrite block False]) \<and>
   (CardInit False \<in> set (fst (snd (writeBlock w block s))) \<longrightarrow>
      \<not> fst (writeBlock w block s) \<and> last (fst (snd (writeBlock w block s))) = CardInit False)"
proof -
  have "\<not> fst (readBlock w block s) \<and>
      length (card_inits (fst (snd (readBlock w block s)))) = 3 \<and>
      fst (snd (readBlock w block s)) =
        [CardRead block False, Delay 10, FeedWatchdog,
         CardRead block False, Delay 10, FeedWatchdog,
         CardRead block False, Delay 10, FeedWatchdog, CardInit True,
         CardRead block False, Delay 10, FeedWatchdog, CardInit True,
         CardRead block False, Delay 10, FeedWatchdog, CardInit True,
         CardRead block False]"
    if "\<forall>n. \<not> readBlock_result w n" "\<forall>n. init_result w n"
    using that readBlock_loop_inits [of w 5 block s] readBlock_loop_failing [of w block s]
    by (simp add: readBlock_def MAXTRIES_SD_def readBlock_loop_all_fail)
  moreover have "\<not> fst (writeBlock w block s) \<and>
      length (card_inits (fst (snd (writeBlock w block s)))) = 3 \<and>
      fst (snd (writeBlock w block s)) =
        [CardWrite block False, Delay 10, FeedWatchdog,
         CardWrite block False, Delay 10, FeedWatchdog,
         CardWrite block False, Delay 10, FeedWatchdog, CardInit True,
         CardWrite block False, Delay 10, FeedWatchdog, CardInit True,
         CardWrite block False, Delay 10, FeedWatchdog, CardInit True,
         CardWrite block False]"
    if "\<forall>n. \<not> writeBlock_result w n" "\<forall>n. init_result w n"
    using that writeBlock_loop_inits [of w 5 block s] writeBlock_loop_failing [of w block s]
    by (simp add: writeBlock_def MAXTRIES_SD_def writeBlock_loop_all_fail)
  moreover have "\<not> fst (readBlock w block s) \<and>
      last (fst (snd (readBlock w block s))) = CardInit False"
    if "CardInit False \<in> set (fst (snd (readBlock w block s)))"
    using that readBlock_loop_init_failed [of w block 5 s]
    by (simp add: readBlock_def MAXTRIES_SD_def)
  moreover have "\<not> fst (writeBlock w block s) \<and>
      last (fst (snd (writeBlock w block s))) = CardInit False"
    if "CardInit False \<in> set (fst (snd (writeBlock w block s)))"
    using that writeBlock_loop_init_failed [of w block 5 s]
    by (simp add: writeBlock_def MAXTRIES_SD_def)
  ultimately show ?thesis
    by blast
qed

theorem reinit_count_witness:
  "(\<not> fst (readBlock failing_card 10 (ready_state 100 [])) \<and>
    length (card_inits (fst (snd (readBlock failing_card 10 (ready_state 100 []))))) = 3 \<and>
    fst (snd (readBlock failing_card 10 (ready_state 100 []))) =
      [CardRead 10 False, Delay 10, FeedWatchdog,
       CardRead 10 False, Delay 10, FeedWatchdog,
       CardRead 10 False, Delay 10, FeedWatchdog, CardInit True,
       CardRead 10 False, Delay 10, FeedWatchdog, CardInit True,
       CardRead 10 False, Delay 10, FeedWatchdog, CardInit True,
       CardRead 10 False]) \<and>
   (\<not> fst (readBlock absent_card 10 (ready_state 100 [])) \<and>
    last (fst (snd (readBlock absent_card 10 (ready_state 100 [])))) = CardInit False) \<and>
   (\<not> fst (writeBlock failing_card 10 (ready_state 100 [])) \<and>
    length (card_inits (fst (snd (writeBlock failing_card 10 (ready_state 100 []))))) = 3 \<and>
    fst (snd (writeBlock failing_card 10 (ready_state 100 []))) =
      [CardWrite 10 False, Delay 10, FeedWatchdog,
       CardWrite 10 False, Delay 10, FeedWatchdog,
       CardWrite 10 False, Delay 10, FeedWatchdog, CardInit True,
       CardWrite 10 False, Delay 10, FeedWatchdog, CardInit True,
       CardWrite 10 False, Delay 10, FeedWatchdog, CardInit True,
       CardWrite 10 False]) \<and>
   (\<not> fst (writeBlock absent_card 10 (ready_state 100 [])) \<and>
    last (fst (snd (writeBlock absent_card 10 (ready_state 100 [])))) = CardInit False)"
proof -
  have "\<forall>n. \<not> readBlock_result failing_card n" "\<forall>n. \<not> writeBlock_result failing_card n"
    "\<forall>n. init_result failing_card n"
    by (simp_all add: failing_card_def)
  moreover have "CardInit False \<in> set (fst (snd (readBlock absent_card 10 (ready_state 100 []))))"
    by code_simp
  moreover have "CardInit False \<in> set (fst (snd (writeBlock absent_card 10 (ready_state 100 []))))"
    by code_simp
  ultimately show ?thesis
    using reinit_count [of failing_card 10 "ready_state 100 []"]
      reinit_count [of absent_card 10 "ready_state 100 []"]
    by blast
qed

text \<open>
  C4 as stated fails: on a card whose block transfers always fail and whose
  initialisation always succeeds, \<open>sdInit\<close> is called three times, not exactly once.
\<close>

theorem reinit_count_counterexample:
  "length (card_inits (fst (snd (readBlock failing_card 10 (ready_state 100 []))))) = 3 \<and>
   length (card_inits (fst (snd (writeBlock failing_card 10 (ready_state 100 []))))) = 3"
  by code_simp

text \<open>
  C9. When the first five single-block calls fail, the sixth succeeds and every
  initialisation succeeds, \<open>readBlock\<close> and \<open>writeBlock\<close> make all six calls, the
  sixth with success, and return \<open>false\<close>: \<open>tries\<close> is 0 when the loop is left.
\<close>

theorem sixth_attempt_lost:
  "((\<forall>i<5. \<not> readBlock_result w (reads s + i)) \<and> readBlock_result w (reads s + 5) \<and>
    (\<forall>n. init_result w n) \<longrightarrow>
      \<not> fst (readBlock w block s) \<and>
      card_transfers (fst (snd (readBlock w block s))) =
        [CardRead block False, CardRead block False, CardRead block False,
         CardRead block False, CardRead block False, CardRead block True]) \<and>
   ((\<forall>i<5. \<not> writeBlock_result w (writes s + i)) \<and> writeBlock_result w (writes s + 5) \<and>
    (\<forall>n. init_result w n) \<longrightarrow>
      \<not> fst (writeBlock w block s) \<and>
      card_transfers (fst (snd (writeBlock w block s))) =
        [CardWrite block False, CardWrite block False, CardWrite block False,
         CardWrite block False, CardWrite block False, CardWrite block True])"
  by (simp add: readBlock_def writeBlock_def MAXTRIES_SD_def
      readBlock_loop_sixth writeBlock_loop_sixth)

theorem sixth_attempt_lost_witness:
  "(\<not> fst (readBlock late_card 10 (ready_state 100 [])) \<and>
    card_transfers (fst (snd (readBlock late_card 10 (ready_state 100 [])))) =
      [CardRead 10 False, CardRead 10 False, CardRead 10 False,
       CardRead 10 False, CardRead 10 False, CardRead 10 True]) \<and>
   (\<not> fst (writeBlock late_card 10 (ready_state 100 [])) \<and>
    card_transfers (fst (snd (writeBlock late_card 10 (ready_state 100 [])))) =
      [CardWrite 10 False, CardWrite 10 False, CardWrite 10 False,
       CardWrite 10 False, CardWrite 10 False, CardWrite 10 True])"
proof -
  have "\<forall>i<5. \<not> readBlock_result late_card (reads (ready_state 100 []) + i)"
    "readBlock_result late_card (reads (ready_state 100 []) + 5)"
    "\<forall>i<5. \<not> writeBlock_result late_card (writes (ready_state 100 []) + i)"
    "writeBlock_result late_card (writes (ready_state 100 []) + 5)"
    "\<forall>n. init_result late_card n"
    by (simp_all add: late_card_def ready_state_def)
  with sixth_attempt_lost [of late_card "ready_state 100 []" 10] show ?thesis
    by blast
qed

section \<open>The main loop: claims C1, C2, C5, C6, C7, C8 and C10\<close>

subsection \<open>The block number and the range check\<close>

lemma byte_bit_bound: "bit (x :: byte) n \<Longrightarrow> n < 8"
  by (auto dest: bit_imp_le_length)

lemma unat_byte_less: "unat (x :: byte) < 256"
  using unsigned_less [of x, where 'a = nat] by simp

lemma unat_ucast_byte: "unat (ucast (x :: byte) :: uint32) = unat x"
  using unat_byte_less [of x] by (simp add: unsigned_ucast_eq take_bit_nat_eq_self)

lemma block_number_plus:
  "block_number s = push_bit 16 (ucast (cmdBuf s 1)) + push_bit 8 (ucast (cmdBuf s 2)) + ucast (cmdBuf s 3)"
proof -
  let ?a = "push_bit 16 (ucast (cmdBuf s 1)) :: uint32"
  let ?b = "push_bit 8 (ucast (cmdBuf s 2)) :: uint32"
  let ?c = "ucast (cmdBuf s 3) :: uint32"
  have ab: "?a AND ?b = 0"
    by (rule bit_word_eqI) (auto simp: bit_simps dest: byte_bit_bound)
  have abc: "(?a OR ?b) AND ?c = 0"
    by (rule bit_word_eqI) (auto simp: bit_simps dest: byte_bit_bound)
  show ?thesis
    unfolding block_number_def
    by (simp only: disjunctive_add_eq_or [OF ab] disjunctive_add_eq_or [OF abc] or.assoc)
qed

lemma unat_block_number:
  "unat (block_number s) = 65536 * unat (cmdBuf s 1) + 256 * unat (cmdBuf s 2) + unat (cmdBuf s 3)"
proof (rule of_nat_inverse)
  show "word_of_nat (65536 * unat (cmdBuf s 1) + 256 * unat (cmdBuf s 2) + unat (cmdBuf s 3)) = block_number s"
    by (simp add: block_number_plus push_bit_eq_mult)
  show "65536 * unat (cmdBuf s 1) + 256 * unat (cmdBuf s 2) + unat (cmdBuf s 3) < 2 ^ LENGTH(32)"
    using unat_byte_less [of "cmdBuf s 1"] unat_byte_less [of "cmdBuf s 2"] unat_byte_less [of "cmdBuf s 3"]
    by simp
qed

lemma unat_block_number_less: "unat (block_number s) < 2 ^ 24"
  using unat_byte_less [of "cmdBuf s 1"] unat_byte_less [of "cmdBuf s 2"] unat_byte_less [of "cmdBuf s 3"]
  by (simp add: unat_block_number)

text \<open>The block numbers of one command ascend without wrap-around.\<close>

lemma unat_block_index:
  assumes "i < 256"
  shows "unat (block_number s + of_nat i) = unat (block_number s) + i"
proof -
  from assms have u: "unat (word_of_nat i :: uint32) = i"
    by (simp add: unat_of_nat)
  from assms have "unat (block_number s) + unat (word_of_nat i :: uint32) < 2 ^ LENGTH(32)"
    using unat_block_number_less [of s] unfolding u by simp
  then have "unat (block_number s + word_of_nat i)
      = unat (block_number s) + unat (word_of_nat i :: uint32)"
    by (simp only: unat_add_lem [THEN iffD1])
  with u show ?thesis
    by simp
qed

text \<open>
  The range check in numbers: it rejects the ranges that end beyond \<open>sdBlocks\<close>, and
  also the empty range at block 0, where \<open>block + cmdBuf[4] - 1\<close> is \<open>-1\<close>.
\<close>

lemma out_of_range_iff:
  "out_of_range s \<longleftrightarrow>
     unat (block_number s) + unat (cmdBuf s 4) = 0 \<or>
     unat (sdBlocks s) < unat (block_number s) + unat (cmdBuf s 4)"
proof -
  let ?n = "unat (block_number s) + unat (cmdBuf s 4)"
  let ?x = "block_number s + ucast (cmdBuf s 4)"
  have "?n < 2 ^ LENGTH(32)"
    using unat_block_number_less [of s] unat_byte_less [of "cmdBuf s 4"] by simp
  then have "unat (block_number s) + unat (ucast (cmdBuf s 4) :: uint32) < 2 ^ LENGTH(32)"
    by (simp only: unat_ucast_byte)
  then have sum: "unat ?x = ?n"
    by (simp only: unat_add_lem [THEN iffD1] unat_ucast_byte)
  show ?thesis
  proof (cases "?n = 0")
    case True
    with sum have "?x = 0"
      by (simp add: unat_eq_0)
    then have "out_of_range s"
      by (simp add: out_of_range_def)
    with True show ?thesis by simp
  next
    case False
    with sum have "?x \<noteq> 0"
      by (auto simp: unat_eq_0)
    then have "unat (?x - 1) = unat ?x - 1"
      by (rule unat_minus_one)
    with False sum show ?thesis
      by (auto simp: out_of_range_def word_le_nat_alt)
  qed
qed

subsection \<open>The two transfer cycles\<close>

lemma read_blocks_Suc:
  "fst (read_blocks w (Suc n) block s) =
     (if fst (readBlock w block s)
      then FeedWatchdog # fst (snd (readBlock w block s)) @
           [ReadBlock block True, SendDma (map (dataBuf (snd (snd (readBlock w block s)))) [0..<BLOCKSIZE])] @
           fst (read_blocks w n (block + 1) (snd (snd (readBlock w block s))))
      else FeedWatchdog # fst (snd (readBlock w block s)) @ [ReadBlock block False, SendStatus 2])"
  by (simp add: split_beta Let_def sendDma_def)

lemma read_blocks_status: "status_last (fst (read_blocks w n block s))"
proof (induction n arbitrary: block s)
  case 0
  show ?case by (simp add: status_last_Cons_iff)
next
  case (Suc n)
  show ?case
  proof (cases "fst (readBlock w block s)")
    case True
    have "status_last
       ((FeedWatchdog # fst (snd (readBlock w block s)) @
          [ReadBlock block True,
           SendDma (map (dataBuf (snd (snd (readBlock w block s)))) [0..<BLOCKSIZE])]) @
        fst (read_blocks w n (block + 1) (snd (snd (readBlock w block s)))))"
      by (rule status_last_append) (simp_all add: statuses_calls Suc)
    with True show ?thesis
      unfolding read_blocks_Suc by simp
  next
    case False
    have "status_last
       ((FeedWatchdog # fst (snd (readBlock w block s)) @ [ReadBlock block False]) @
        [SendStatus 2])"
      by (rule status_last_append) (simp_all add: statuses_calls status_last_Cons_iff)
    with False show ?thesis
      unfolding read_blocks_Suc by simp
  qed
qed


lemma read_blocks_calls:
  "failed_transfers (fst (read_blocks w n block s)) = [] \<Longrightarrow>
   calls (fst (read_blocks w n block s)) =
     concat (map (\<lambda>i. [ReadBlockCall (block + of_nat i), SendCall 512]) [0..<n]) @
     [StatusCall 0]"
proof (induction n arbitrary: block s)
  case 0
  show ?case by simp
next
  case (Suc n)
  let ?r = "readBlock w block s"
  from Suc.prems have ok: "fst ?r"
    unfolding read_blocks_Suc by (auto split: if_splits)
  with Suc.prems have "failed_transfers (fst (read_blocks w n (block + 1) (snd (snd ?r)))) = []"
    unfolding read_blocks_Suc by simp
  then have "calls (fst (read_blocks w n (block + 1) (snd (snd ?r)))) =
     concat (map (\<lambda>i. [ReadBlockCall (block + 1 + of_nat i), SendCall 512]) [0..<n]) @
     [StatusCall 0]"
    by (rule Suc.IH)
  with ok show ?case
    unfolding read_blocks_Suc
    by (simp add: map_upt_Suc add.assoc BLOCKSIZE_def del: upt_Suc)
qed

lemma write_blocks_Suc:
  "fst (write_blocks w (Suc n) block s) =
     (if fst (writeBlock w block (snd (readDma w BLOCKSIZE s)))
      then FeedWatchdog # ReadDma BLOCKSIZE #
           fst (snd (writeBlock w block (snd (readDma w BLOCKSIZE s)))) @
           [WriteBlock block True] @
           fst (write_blocks w n (block + 1)
                 (snd (snd (writeBlock w block (snd (readDma w BLOCKSIZE s))))))
      else FeedWatchdog # ReadDma BLOCKSIZE #
           fst (snd (writeBlock w block (snd (readDma w BLOCKSIZE s)))) @
           [WriteBlock block False, SendStatus 2])"
  by (simp add: split_beta Let_def)

lemma write_blocks_status: "status_last (fst (write_blocks w n block s))"
proof (induction n arbitrary: block s)
  case 0
  show ?case by (simp add: status_last_Cons_iff)
next
  case (Suc n)
  let ?r = "writeBlock w block (snd (readDma w BLOCKSIZE s))"
  show ?case
  proof (cases "fst ?r")
    case True
    have "status_last
       ((FeedWatchdog # ReadDma BLOCKSIZE # fst (snd ?r) @ [WriteBlock block True]) @
        fst (write_blocks w n (block + 1) (snd (snd ?r))))"
      by (rule status_last_append) (simp_all add: statuses_calls Suc)
    with True show ?thesis
      unfolding write_blocks_Suc by simp
  next
    case False
    have "status_last
       ((FeedWatchdog # ReadDma BLOCKSIZE # fst (snd ?r) @ [WriteBlock block False]) @
        [SendStatus 2])"
      by (rule status_last_append) (simp_all add: statuses_calls status_last_Cons_iff)
    with False show ?thesis
      unfolding write_blocks_Suc by simp
  qed
qed

lemma write_blocks_calls:
  "failed_transfers (fst (write_blocks w n block s)) = [] \<Longrightarrow>
   calls (fst (write_blocks w n block s)) =
     concat (map (\<lambda>i. [ReceiveCall 512, WriteBlockCall (block + of_nat i)]) [0..<n]) @
     [StatusCall 0]"
proof (induction n arbitrary: block s)
  case 0
  show ?case by simp
next
  case (Suc n)
  let ?r = "writeBlock w block (snd (readDma w BLOCKSIZE s))"
  from Suc.prems have ok: "fst ?r"
    unfolding write_blocks_Suc by (auto split: if_splits)
  with Suc.prems have "failed_transfers (fst (write_blocks w n (block + 1) (snd (snd ?r)))) = []"
    unfolding write_blocks_Suc by simp
  then have "calls (fst (write_blocks w n (block + 1) (snd (snd ?r)))) =
     concat (map (\<lambda>i. [ReceiveCall 512, WriteBlockCall (block + 1 + of_nat i)]) [0..<n]) @
     [StatusCall 0]"
    by (rule Suc.IH)
  with ok show ?case
    unfolding write_blocks_Suc
    by (simp add: map_upt_Suc add.assoc BLOCKSIZE_def del: upt_Suc)
qed

subsection \<open>The switch and the check before it\<close>

lemma execute_status: "status_last (fst (execute w s))"
  by (simp add: execute_def Let_def split_beta status_last_Cons_iff
      read_blocks_status write_blocks_status)

lemma dispatch_events:
  "fst (dispatch w s) =
     (if sdReady s then fst (execute w s)
      else if init_result w (inits s)
        then CardInit True # fst (execute w (snd (snd (sdInit w s))))
        else [CardInit False, SendStatus 2])"
  by (simp add: dispatch_def split_beta Let_def)

lemma execute_nonempty: "fst (execute w s) \<noteq> []"
  using execute_status [of w s] by (auto simp: status_last_def)

lemma dispatch_status: "status_last (fst (dispatch w s))"
  unfolding dispatch_events
  by (simp add: execute_status execute_nonempty status_last_Cons_iff)


lemma recorded_capacity_at_switch: "recorded_capacity w s = sdBlocks (at_switch w s)"
  by (simp add: recorded_capacity_def)

lemma cmdBuf_at_switch [simp]: "cmdBuf (at_switch w s) = cmdBuf s"
  by (simp add: at_switch_def)

lemma block_number_at_switch [simp]: "block_number (at_switch w s) = block_number s"
  by (simp add: block_number_def)

lemma dispatch_passed:
  "sdReady s \<or> init_result w (inits s) \<Longrightarrow>
   fst (dispatch w s) = (if sdReady s then [] else [CardInit True]) @ fst (execute w (at_switch w s))"
  by (auto simp: dispatch_events at_switch_def)

lemma dispatch_stopped:
  "\<not> sdReady s \<Longrightarrow> \<not> init_result w (inits s) \<Longrightarrow>
   fst (dispatch w s) = [CardInit False, SendStatus 2]"
  by (simp add: dispatch_events)

lemma execute_read:
  "cmdBuf s 0 = 0x08 \<Longrightarrow>
   fst (execute w s) =
     (if out_of_range s then [SendStatus 2]
      else fst (read_blocks w (unat (cmdBuf s 4)) (block_number s) s))"
  by (simp add: execute_def)

lemma execute_write:
  "cmdBuf s 0 = 0x0A \<Longrightarrow>
   fst (execute w s) =
     (if out_of_range s then [SendStatus 2]
      else fst (write_blocks w (unat (cmdBuf s 4)) (block_number s) s))"
  by (simp add: execute_def)

lemma execute_mode_sense:
  "cmdBuf s 0 = 0x1A \<Longrightarrow>
   fst (execute w s) =
     (if cmdBuf s 2 = 0x00 then [SendDma (map (mode_sense_0 s) [0..<16]), SendStatus 0]
      else if cmdBuf s 2 = 0x04 then [SendDma (map (mode_sense_4 s) [0..<24]), SendStatus 0]
      else [SendStatus 0])"
  by (simp add: execute_def)

lemma zero_fill_apply:
  "zero_fill a b d i = (if a \<le> i \<and> i < b then 0 else d i)"
proof (induction b)
  case 0
  show ?case by (simp add: zero_fill_def)
next
  case (Suc b)
  then show ?case
    by (cases "a \<le> b") (auto simp: zero_fill_def)
qed

lemma mode_sense_4_zero: "map (mode_sense_4 s) [0..<24] = replicate 24 0"
proof -
  have "map (mode_sense_4 s) [0..<24] = map (\<lambda>i. 0) [0..<24]"
    by (rule map_cong) (simp_all add: mode_sense_4_def zero_fill_apply)
  then show ?thesis
    by (simp add: map_replicate_const)
qed

lemma waitCommand_fields [simp]:
  "sdReady (waitCommand idr s) = sdReady s" "inits (waitCommand idr s) = inits s"
  by (simp_all add: waitCommand_def)

lemma mode_sense_4_events:
  "sdReady s \<Longrightarrow> cmdBuf s 0 = 0x1A \<Longrightarrow> cmdBuf s 2 = 0x04 \<Longrightarrow>
   fst (dispatch w s) = [SendDma (replicate 24 0), SendStatus 0]"
  by (simp add: dispatch_events execute_mode_sense mode_sense_4_zero)


subsection \<open>Block transfers\<close>

text \<open>
  C1, as amended. Take a read or write command that arrives when the card is ready or
  when the \<open>sdInit\<close> called by the readiness check succeeds, whose block number and
  count are not both zero, whose range ends within the recorded capacity, and during
  which no call of \<open>readBlock\<close> or \<open>writeBlock\<close> returns \<open>false\<close>. For a read, the
  main loop calls \<open>readBlock\<close> exactly \<open>count\<close> times, on the block numbers ascending
  from the 24-bit address in frame bytes 1 to 3 (\<open>unat_block_number\<close>,
  \<open>unat_block_index\<close>), each call
  followed at once by a \<open>sendDma\<close> of 512 bytes, and then sends status 0. For a write, it
  calls \<open>readDma\<close> for 512 bytes exactly \<open>count\<close> times, each followed at once by
  \<open>writeBlock\<close> on the ascending block number, and then sends status 0.
\<close>

theorem block_transfer_calls:
  assumes gate: "sdReady s \<or> init_result w (inits s)"
    and some: "0 < unat (block_number s) + unat (cmdBuf s 4)"
    and inside: "unat (block_number s) + unat (cmdBuf s 4) \<le> unat (recorded_capacity w s)"
    and good: "failed_transfers (fst (dispatch w s)) = []"
  shows "(cmdBuf s 0 = 0x08 \<longrightarrow>
            calls (fst (dispatch w s)) =
              concat (map (\<lambda>i. [ReadBlockCall (block_number s + of_nat i), SendCall 512])
                        [0..<unat (cmdBuf s 4)]) @ [StatusCall 0]) \<and>
         (cmdBuf s 0 = 0x0A \<longrightarrow>
            calls (fst (dispatch w s)) =
              concat (map (\<lambda>i. [ReceiveCall 512, WriteBlockCall (block_number s + of_nat i)])
                        [0..<unat (cmdBuf s 4)]) @ [StatusCall 0])"
proof -
  let ?s1 = "at_switch w s"
  let ?n = "unat (cmdBuf s 4)"
  from some inside have range: "\<not> out_of_range ?s1"
    by (simp add: out_of_range_iff recorded_capacity_at_switch)
  note run = dispatch_passed [OF gate]
  have "calls (fst (dispatch w s)) =
      concat (map (\<lambda>i. [ReadBlockCall (block_number s + of_nat i), SendCall 512]) [0..<?n]) @
      [StatusCall 0]" if rd: "cmdBuf s 0 = 0x08"
  proof -
    from rd range have e: "fst (execute w ?s1) = fst (read_blocks w ?n (block_number s) ?s1)"
      by (simp add: execute_read)
    with good run have "failed_transfers (fst (read_blocks w ?n (block_number s) ?s1)) = []"
      by (simp split: if_splits)
    then show ?thesis
      unfolding run e by (simp add: read_blocks_calls)
  qed
  moreover have "calls (fst (dispatch w s)) =
      concat (map (\<lambda>i. [ReceiveCall 512, WriteBlockCall (block_number s + of_nat i)]) [0..<?n]) @
      [StatusCall 0]" if wr: "cmdBuf s 0 = 0x0A"
  proof -
    from wr range have e: "fst (execute w ?s1) = fst (write_blocks w ?n (block_number s) ?s1)"
      by (simp add: execute_write)
    with good run have "failed_transfers (fst (write_blocks w ?n (block_number s) ?s1)) = []"
      by (simp split: if_splits)
    then show ?thesis
      unfolding run e by (simp add: write_blocks_calls)
  qed
  ultimately show ?thesis
    by blast
qed


theorem block_transfer_calls_witness:
  "calls (fst (dispatch healthy_card (ready_state 100 [0x08, 0, 0, 10, 2, 0]))) =
     [ReadBlockCall 10, SendCall 512, ReadBlockCall 11, SendCall 512, StatusCall 0] \<and>
   calls (fst (dispatch healthy_card (ready_state 100 [0x0A, 0, 0, 98, 2, 0]))) =
     [ReceiveCall 512, WriteBlockCall 98, ReceiveCall 512, WriteBlockCall 99, StatusCall 0]"
proof -
  let ?r = "ready_state 100 [0x08, 0, 0, 10, 2, 0]"
  let ?w = "ready_state 100 [0x0A, 0, 0, 98, 2, 0]"
  have r: "sdReady ?r \<or> init_result healthy_card (inits ?r)"
    "0 < unat (block_number ?r) + unat (cmdBuf ?r 4)"
    "unat (block_number ?r) + unat (cmdBuf ?r 4) \<le> unat (recorded_capacity healthy_card ?r)"
    by (simp_all add: unat_block_number recorded_capacity_def at_switch_def ready_state_def)
  have r': "failed_transfers (fst (dispatch healthy_card ?r)) = []" "cmdBuf ?r 0 = 0x08"
    by code_simp+
  have w: "sdReady ?w \<or> init_result healthy_card (inits ?w)"
    "0 < unat (block_number ?w) + unat (cmdBuf ?w 4)"
    "unat (block_number ?w) + unat (cmdBuf ?w 4) \<le> unat (recorded_capacity healthy_card ?w)"
    by (simp_all add: unat_block_number recorded_capacity_def at_switch_def ready_state_def)
  have w': "failed_transfers (fst (dispatch healthy_card ?w)) = []" "cmdBuf ?w 0 = 0x0A"
    by code_simp+
  have "concat (map (\<lambda>i. [ReadBlockCall (block_number ?r + of_nat i), SendCall 512])
                  [0..<unat (cmdBuf ?r 4)]) @ [StatusCall 0] =
        [ReadBlockCall 10, SendCall 512, ReadBlockCall 11, SendCall 512, StatusCall 0]"
    by code_simp
  moreover have
    "concat (map (\<lambda>i. [ReceiveCall 512, WriteBlockCall (block_number ?w + of_nat i)])
                  [0..<unat (cmdBuf ?w 4)]) @ [StatusCall 0] =
        [ReceiveCall 512, WriteBlockCall 98, ReceiveCall 512, WriteBlockCall 99, StatusCall 0]"
    by code_simp
  ultimately show ?thesis
    using block_transfer_calls [OF r r'(1)] block_transfer_calls [OF w w'(1)] r'(2) w'(2)
    by simp
qed

text \<open>
  C1 as stated fails in two places. A read or a write of zero blocks at block 0 lies
  within any capacity and has no failing transfer, yet it is answered with status 2: the
  range check computes \<open>0 + 0 - 1\<close> and compares it as an unsigned number. And a
  command that arrives while the card is not ready is answered with status 2 and no
  transfer when \<open>sdInit\<close> fails, whatever range it asks for.
\<close>

theorem block_transfer_calls_counterexample:
  "(unat (block_number (ready_state 100 [0x08, 0, 0, 0, 0, 0])) +
      unat (cmdBuf (ready_state 100 [0x08, 0, 0, 0, 0, 0]) 4)
      \<le> unat (recorded_capacity healthy_card (ready_state 100 [0x08, 0, 0, 0, 0, 0])) \<and>
    failed_transfers (fst (dispatch healthy_card (ready_state 100 [0x08, 0, 0, 0, 0, 0]))) = [] \<and>
    calls (fst (dispatch healthy_card (ready_state 100 [0x08, 0, 0, 0, 0, 0]))) = [StatusCall 2]) \<and>
   calls (fst (dispatch healthy_card (ready_state 100 [0x0A, 0, 0, 0, 0, 0]))) = [StatusCall 2] \<and>
   (unat (block_number (unready_state [0x08, 0, 0, 10, 2, 0])) +
      unat (cmdBuf (unready_state [0x08, 0, 0, 10, 2, 0]) 4)
      \<le> unat (recorded_capacity absent_card (unready_state [0x08, 0, 0, 10, 2, 0])) \<and>
    failed_transfers (fst (dispatch absent_card (unready_state [0x08, 0, 0, 10, 2, 0]))) = [] \<and>
    calls (fst (dispatch absent_card (unready_state [0x08, 0, 0, 10, 2, 0]))) = [StatusCall 2])"
proof -
  let ?z = "ready_state 100 [0x08, 0, 0, 0, 0, 0]"
  let ?u = "unready_state [0x08, 0, 0, 10, 2, 0]"
  have "unat (block_number ?z) + unat (cmdBuf ?z 4) \<le> unat (recorded_capacity healthy_card ?z)"
    by (simp add: unat_block_number recorded_capacity_def at_switch_def ready_state_def)
  moreover have "failed_transfers (fst (dispatch healthy_card ?z)) = [] \<and>
      calls (fst (dispatch healthy_card ?z)) = [StatusCall 2]"
    by code_simp
  moreover have
    "calls (fst (dispatch healthy_card (ready_state 100 [0x0A, 0, 0, 0, 0, 0]))) = [StatusCall 2]"
    by code_simp
  moreover have
    "unat (block_number ?u) + unat (cmdBuf ?u 4) \<le> unat (recorded_capacity absent_card ?u)"
    by (simp add: unat_block_number recorded_capacity_def at_switch_def unready_state_def
        ready_state_def sdInit_def absent_card_def)
  moreover have "failed_transfers (fst (dispatch absent_card ?u)) = [] \<and>
      calls (fst (dispatch absent_card ?u)) = [StatusCall 2]"
    by code_simp
  ultimately show ?thesis
    by blast
qed

text \<open>
  C5. A read or write command whose block number plus count exceeds the recorded
  capacity is answered with status 2 and nothing else: no call of \<open>readBlock\<close> or
  \<open>writeBlock\<close>, no DMA transfer, and no block transfer asked of the card.
\<close>

theorem range_error:
  assumes cmd: "cmdBuf s 0 = 0x08 \<or> cmdBuf s 0 = 0x0A"
    and beyond: "unat (recorded_capacity w s) < unat (block_number s) + unat (cmdBuf s 4)"
  shows "calls (fst (dispatch w s)) = [StatusCall 2] \<and> card_transfers (fst (dispatch w s)) = []"
proof (cases "sdReady s \<or> init_result w (inits s)")
  case True
  from beyond have "out_of_range (at_switch w s)"
    by (simp add: out_of_range_iff recorded_capacity_at_switch)
  with cmd have "fst (execute w (at_switch w s)) = [SendStatus 2]"
    by (auto simp: execute_read execute_write)
  then show ?thesis
    unfolding dispatch_passed [OF True] by simp
next
  case False
  then show ?thesis
    by (simp add: dispatch_stopped)
qed


theorem range_error_witness:
  "calls (fst (dispatch healthy_card (ready_state 100 [0x08, 0, 0, 99, 5, 0]))) = [StatusCall 2] \<and>
   card_transfers (fst (dispatch healthy_card (ready_state 100 [0x08, 0, 0, 99, 5, 0]))) = []"
proof -
  let ?s = "ready_state 100 [0x08, 0, 0, 99, 5, 0]"
  have "cmdBuf ?s 0 = 0x08 \<or> cmdBuf ?s 0 = 0x0A"
    "unat (recorded_capacity healthy_card ?s) < unat (block_number ?s) + unat (cmdBuf ?s 4)"
    by (simp_all add: unat_block_number recorded_capacity_def at_switch_def ready_state_def)
  then show ?thesis
    by (rule range_error)
qed

subsection \<open>Mode sense\<close>

text \<open>
  C2 fails on the code. For sub-page 4 the six page bytes are stored first and the loop
  that zeroes \<open>dataBuf[0..23]\<close> runs after them, so the 24 bytes sent are all zero
  (\<open>mode_sense_4_events\<close>); for sub-page 0 the zeroing loop comes first. Here the run
  on a ready card of \<open>0x1E8480\<close> blocks, where the page described by the claim would
  start \<open>4, 22, 0, 61, 9, 128\<close>.
\<close>

theorem mode_sense_4_page:
  "fst (dispatch healthy_card (ready_state 2000000 [0x1A, 0, 4, 0, 0, 0])) =
     [SendDma [0, 0, 0, 0, 0, 0, 0, 0, 0, 0, 0, 0, 0, 0, 0, 0, 0, 0, 0, 0, 0, 0, 0, 0],
      SendStatus 0]"
  by code_simp

text \<open>
  C10, as amended. A mode sense command whose sub-page byte is neither 0 nor 4, arriving
  when the card is ready or when the \<open>sdInit\<close> called by the readiness check succeeds,
  is answered with status 0 and nothing else: no DMA transfer and no block transfer.
\<close>

theorem mode_sense_other_page:
  assumes "cmdBuf s 0 = 0x1A" and "cmdBuf s 2 \<noteq> 0x00" and "cmdBuf s 2 \<noteq> 0x04"
    and gate: "sdReady s \<or> init_result w (inits s)"
  shows "calls (fst (dispatch w s)) = [StatusCall 0] \<and> card_transfers (fst (dispatch w s)) = []"
  using assms unfolding dispatch_passed [OF gate]
  by (simp add: execute_mode_sense)


theorem mode_sense_other_page_witness:
  "calls (fst (dispatch healthy_card (ready_state 100 [0x1A, 0, 1, 0, 0, 0]))) = [StatusCall 0] \<and>
   card_transfers (fst (dispatch healthy_card (ready_state 100 [0x1A, 0, 1, 0, 0, 0]))) = []"
proof -
  let ?s = "ready_state 100 [0x1A, 0, 1, 0, 0, 0]"
  have "cmdBuf ?s 0 = 0x1A" "cmdBuf ?s 2 \<noteq> 0x00" "cmdBuf ?s 2 \<noteq> 0x04"
    "sdReady ?s \<or> init_result healthy_card (inits ?s)"
    by code_simp+
  then show ?thesis
    by (rule mode_sense_other_page)
qed

text \<open>
  C10 as stated fails: when the card is not ready and \<open>sdInit\<close> fails, the same command
  is answered with status 2.
\<close>

theorem mode_sense_other_page_counterexample:
  "calls (fst (dispatch absent_card (unready_state [0x1A, 0, 1, 0, 0, 0]))) = [StatusCall 2]"
  by code_simp

subsection \<open>The readiness check and the status\<close>

text \<open>
  C6. When a command arrives and \<open>sdReady\<close> is false, the first thing the main loop does
  is call \<open>sdInit\<close>; when that call fails, the run is this call followed by status 2,
  for every content of the command frame: no block transfer, no DMA transfer.
\<close>

theorem not_ready_error:
  "\<not> sdReady s \<Longrightarrow>
   take 1 (fst (loop w idr s)) = [CardInit (init_result w (inits s))] \<and>
   (\<not> init_result w (inits s) \<longrightarrow> fst (loop w idr s) = [CardInit False, SendStatus 2])"
  by (simp add: loop_def dispatch_events)

theorem not_ready_error_witness:
  "take 1 (fst (loop absent_card (\<lambda>i. 0x0800) (unready_state []))) = [CardInit False] \<and>
   fst (loop absent_card (\<lambda>i. 0x0800) (unready_state [])) = [CardInit False, SendStatus 2]"
proof -
  have "\<not> sdReady (unready_state [])" "\<not> init_result absent_card (inits (unready_state []))"
    by code_simp+
  with not_ready_error [of "unready_state []" absent_card "\<lambda>i. 0x0800"] show ?thesis
    by simp
qed

text \<open>
  C7. Every command cycle sends exactly one status, and sending it is the last thing the
  cycle does, whatever the frame and whatever the card and the peer do.
\<close>

theorem one_status:
  "length (statuses (fst (loop w idr s))) = 1 \<and>
   last (fst (loop w idr s)) = SendStatus (hd (statuses (fst (loop w idr s))))"
  using status_last_statuses [OF dispatch_status, of w "waitCommand idr s"]
    status_last_last [OF dispatch_status, of w "waitCommand idr s"]
  by (auto simp: loop_def)


text \<open>
  C8. The status sent is 0 or 2, whatever the frame and whatever the card and the peer do.
\<close>

theorem status_codes: "set (statuses (fst (loop w idr s))) \<subseteq> {0, 2}"
  using status_last_statuses [OF dispatch_status, of w "waitCommand idr s"]
  by (auto simp: loop_def)


end
